theory Spec2Isabelle
  imports Main "HOL-Library.AList"
begin

section \<open>The msw fixture store and the assertion helpers of the mock utilities\<close>

text \<open>
  The module under study keeps one JSON document in the file \<^verbatim>\<open>msw.local.json\<close>. At
  load time it starts a write of \<^verbatim>\<open>{}\<close> to that file (\<^verbatim>\<open>clearingFixture\<close>);
  \<^verbatim>\<open>readFixture\<close> waits for that write, reads and parses the file and falls back to
  \<^verbatim>\<open>{}\<close>; \<^verbatim>\<open>updateFixture\<close> reads the document, spreads the updates over it and
  writes the result, guarded by the module variable \<^verbatim>\<open>updating\<close>. Three helpers
  (\<^verbatim>\<open>requiredParam\<close>, \<^verbatim>\<open>requiredHeader\<close>, \<^verbatim>\<open>requiredProperty\<close>) throw when a
  key is missing.
\<close>

subsection \<open>Values\<close>

text \<open>
  JSON values as \<^verbatim>\<open>JSON.parse\<close> produces them. Numbers are kept as integers: no
  statement below depends on arithmetic. An object is the list of its own entries in
  insertion order; a well-formed object has pairwise distinct keys.
\<close>

datatype json =
    JNull
  | JBool bool
  | JNum int
  | JStr string
  | JArr "json list"
  | JObj "(string \<times> json) list"

type_synonym obj = "(string \<times> json) list"

text \<open>
  The errors that occur: a failed file operation (with its code), the
  \<^verbatim>\<open>SyntaxError\<close> of \<^verbatim>\<open>JSON.parse\<close>, the \<^verbatim>\<open>TypeError\<close> of reading a property
  of \<^verbatim>\<open>null\<close>, and the \<^verbatim>\<open>Error\<close> objects the helpers construct from a message.
\<close>

datatype error = IoError string | SyntaxError | TypeError | Error string

text \<open>JavaScript truthiness of a JSON value, and of a \<^verbatim>\<open>string | null\<close>.\<close>

fun truthy :: "json \<Rightarrow> bool" where
  "truthy JNull = False"
| "truthy (JBool b) = b"
| "truthy (JNum n) = (n \<noteq> 0)"
| "truthy (JStr s) = (s \<noteq> [])"
| "truthy (JArr xs) = True"
| "truthy (JObj kvs) = True"

text \<open>
  What \<^verbatim>\<open>object[property]\<close> finds on a plain object: nothing (\<^verbatim>\<open>undefined\<close>), the value
  of an own property, or a member inherited from \<^verbatim>\<open>Object.prototype\<close>. The inherited
  members are functions, and \<^verbatim>\<open>__proto__\<close> gives the prototype object itself: all are
  truthy.
\<close>

datatype looked = Undefined | Own json | Inherited

fun truthy_looked :: "looked \<Rightarrow> bool" where
  "truthy_looked Undefined = False"
| "truthy_looked (Own v) = truthy v"
| "truthy_looked Inherited = True"

fun truthy_str :: "string option \<Rightarrow> bool" where
  "truthy_str None = False"
| "truthy_str (Some s) = (s \<noteq> [])"

subsection \<open>Object spread\<close>

text \<open>
  \<^verbatim>\<open>{ ...mswData, ...updates }\<close> copies the own enumerable properties of
  \<^verbatim>\<open>mswData\<close> into a fresh object and then those of \<^verbatim>\<open>updates\<close>, each by a
  property write: an existing key keeps its place and takes the new value, a new key is
  appended. \<^const>\<open>AList.update\<close> is exactly that write. Spreading \<^verbatim>\<open>null\<close>, a
  number or a boolean contributes nothing; an array or a string contributes its
  indexed elements (for a string, one character per index).
\<close>

fun show_nat :: "nat \<Rightarrow> string" where
  "show_nat n =
     (if n < 10 then [''0123456789'' ! n]
      else show_nat (n div 10) @ [''0123456789'' ! (n mod 10)])"

declare show_nat.simps [simp del]

fun own_entries :: "json \<Rightarrow> obj" where
  "own_entries (JObj kvs) = kvs"
| "own_entries (JArr xs) = zip (map show_nat [0..<length xs]) xs"
| "own_entries (JStr s) = zip (map show_nat [0..<length s]) (map (\<lambda>c. JStr [c]) s)"
| "own_entries JNull = []"
| "own_entries (JBool b) = []"
| "own_entries (JNum n) = []"

fun assign :: "obj \<Rightarrow> obj \<Rightarrow> obj" where
  "assign target [] = target"
| "assign target ((k, v) # rest) = assign (AList.update k v target) rest"

definition spread2 :: "json \<Rightarrow> obj \<Rightarrow> json" where
  "spread2 mswData updates = JObj (assign (assign [] (own_entries mswData)) updates)"

subsection \<open>The assertion helpers\<close>

text \<open>
  \<^verbatim>\<open>URLSearchParams\<close> is its list of name/value pairs; \<^verbatim>\<open>get\<close> returns the first
  value with the name, or \<^verbatim>\<open>null\<close>. \<^verbatim>\<open>Headers\<close> is its list of entries, whose
  names the platform stores in lower case; \<^verbatim>\<open>get\<close> throws a \<^verbatim>\<open>TypeError\<close> when
  the name it is given is not a header name (a non-empty string of token characters),
  and otherwise looks the lower-cased name up. A plain object is the list of its own
  properties, with \<^verbatim>\<open>Object.prototype\<close> as its prototype: \<^verbatim>\<open>object[property]\<close>
  finds an own property first, then a member of \<^verbatim>\<open>Object.prototype\<close>, and is
  \<^verbatim>\<open>undefined\<close> otherwise.
  \<^verbatim>\<open>Object.fromEntries\<close> writes the pairs into a fresh object in order.
  \<^verbatim>\<open>JSON.stringify\<close> is the platform's; the helpers take it as the parameter
  \<open>stringify\<close>, applied to the structure they dump.
\<close>

definition lower_char :: "char \<Rightarrow> char" where
  "lower_char c =
     (case map_of (zip ''ABCDEFGHIJKLMNOPQRSTUVWXYZ'' ''abcdefghijklmnopqrstuvwxyz'') c of
        Some l \<Rightarrow> l
      | None \<Rightarrow> c)"

definition params_get :: "(string \<times> string) list \<Rightarrow> string \<Rightarrow> string option" where
  "params_get params name = map_of params name"

definition token_chars :: string where
  "token_chars =
     ''abcdefghijklmnopqrstuvwxyzABCDEFGHIJKLMNOPQRSTUVWXYZ0123456789!#$%&*+-.^_`|~''
     @ [CHR 0x27]"

definition valid_header_name :: "string \<Rightarrow> bool" where
  "valid_header_name name = (name \<noteq> [] \<and> set name \<subseteq> set token_chars)"

definition headers_get :: "(string \<times> string) list \<Rightarrow> string \<Rightarrow> error + string option" where
  "headers_get headers name =
     (if valid_header_name name then Inr (map_of headers (map lower_char name))
      else Inl TypeError)"

definition object_prototype_names :: "string list" where
  "object_prototype_names =
     [''constructor'', ''__defineGetter__'', ''__defineSetter__'', ''hasOwnProperty'',
      ''__lookupGetter__'', ''__lookupSetter__'', ''isPrototypeOf'', ''propertyIsEnumerable'',
      ''toString'', ''valueOf'', ''__proto__'', ''toLocaleString'']"

definition property_get :: "obj \<Rightarrow> string \<Rightarrow> looked" where
  "property_get object property =
     (case map_of object property of
        Some v \<Rightarrow> Own v
      | None \<Rightarrow> (if property \<in> set object_prototype_names then Inherited else Undefined))"

fun fromEntries :: "(string \<times> 'v) list \<Rightarrow> (string \<times> 'v) list \<Rightarrow> (string \<times> 'v) list" where
  "fromEntries acc [] = acc"
| "fromEntries acc ((k, v) # rest) = fromEntries (AList.update k v acc) rest"

definition requiredParam ::
  "((string \<times> string) list \<Rightarrow> string) \<Rightarrow> (string \<times> string) list \<Rightarrow> string \<Rightarrow> error + unit" where
  \<open>requiredParam stringify params param =
     (if \<not> truthy_str (params_get params param)
      then Inl (Error (''Param "'' @ param @ ''" required, but not found in ''
                        @ stringify (fromEntries [] params)))
      else Inr ())\<close>

definition requiredHeader ::
  "((string \<times> string) list \<Rightarrow> string) \<Rightarrow> (string \<times> string) list \<Rightarrow> string \<Rightarrow> error + unit" where
  \<open>requiredHeader stringify headers header =
     (case headers_get headers header of
        Inl e \<Rightarrow> Inl e
      | Inr found \<Rightarrow>
          (if \<not> truthy_str found
           then Inl (Error (''Header "'' @ header @ ''" required, but not found in ''
                             @ stringify (fromEntries [] headers)))
           else Inr ()))\<close>

definition requiredProperty ::
  "(obj \<Rightarrow> string) \<Rightarrow> obj \<Rightarrow> string \<Rightarrow> error + unit" where
  \<open>requiredProperty stringify object property =
     (if \<not> truthy_looked (property_get object property)
      then Inl (Error (''Property "'' @ property @ ''" required, but not found in ''
                        @ stringify object))
      else Inr ())\<close>

subsection \<open>The file, the promises and the module state\<close>

text \<open>
  The file is described by what \<^verbatim>\<open>readFile\<close> followed by \<^verbatim>\<open>JSON.parse\<close> makes of
  it: it is missing, or its text does not parse, or it parses to a value.
  \<^verbatim>\<open>writeFile\<close> of \<^verbatim>\<open>JSON.stringify v\<close> leaves a file that parses to \<open>v\<close>, and
  \<^verbatim>\<open>writeFile\<close> of \<^verbatim>\<open>'{}'\<close> one that parses to the empty object. A write that
  fails is taken to leave the file as it was; nothing below is stated about the file
  after a failed write.
\<close>

datatype filestate = Missing | Garbage | Holds json

text \<open>The state of a promise, and the way a file operation ends.\<close>

datatype settled = Pending | Fulfilled | Rejected error

datatype io = Ok | Fail error

definition readFile_parse :: "io \<Rightarrow> filestate \<Rightarrow> error + json" where
  "readFile_parse r f =
     (case r of
        Fail e \<Rightarrow> Inl e
      | Ok \<Rightarrow> (case f of
                 Missing \<Rightarrow> Inl (IoError ''ENOENT'')
               | Garbage \<Rightarrow> Inl SyntaxError
               | Holds v \<Rightarrow> Inr v))"

text \<open>
  JavaScript runs each piece of code between two \<^verbatim>\<open>await\<close>s without interruption,
  so a call of an \<^verbatim>\<open>async\<close> function is a task that rests at one of its
  \<^verbatim>\<open>await\<close>s until the awaited promise settles. \<^verbatim>\<open>readFixture\<close> rests at
  \<^verbatim>\<open>await clearingFixture\<close>, at \<^verbatim>\<open>await readFile\<close> and, in its \<^verbatim>\<open>catch\<close>, at
  \<^verbatim>\<open>await writeFile(mswDataPath, '{}')\<close>. \<^verbatim>\<open>updateFixture\<close> rests at
  \<^verbatim>\<open>await updating.promise\<close>, inside \<^verbatim>\<open>await readFixture()\<close> and at
  \<^verbatim>\<open>await writeFile\<close> of the merged document.
\<close>

datatype rphase = AwaitClearing | Reading | Resetting

datatype outcome = Returns "json option" | Throws error

datatype pc = AwaitSlot nat | InRead rphase | Writing json | Done outcome

datatype kind = Update obj | Read

record task =
  kind :: kind
  pc :: pc

text \<open>
  The module state: the file, the promise \<^verbatim>\<open>clearingFixture\<close>, the variable
  \<^verbatim>\<open>updating\<close> (the index of a deferred, or \<^verbatim>\<open>null\<close>), the deferreds created so
  far, the calls made so far, what \<^verbatim>\<open>console.error\<close> has printed, and the
  rejections that no handler has taken and that the runtime reports to the process.
\<close>

record world =
  disk :: filestate
  clearingFixture :: settled
  updating :: "nat option"
  deferreds :: "settled list"
  tasks :: "task list"
  logged :: "error list"
  unhandled :: "error list"

definition deferred_state :: "settled list \<Rightarrow> nat \<Rightarrow> settled" where
  "deferred_state ds d = (if d < length ds then ds ! d else Pending)"

text \<open>Resolving or rejecting a promise that is already settled has no effect.\<close>

definition settle :: "nat \<Rightarrow> settled \<Rightarrow> settled list \<Rightarrow> settled list" where
  "settle d s ds = (if d < length ds \<and> ds ! d = Pending then ds[d := s] else ds)"

text \<open>
  The promise of a deferred gets a handler only from a call that rests at
  \<^verbatim>\<open>await updating.promise\<close>. A pending deferred on which no call rests is unheard:
  rejecting it is an unhandled rejection.
\<close>

definition unheard :: "world \<Rightarrow> nat \<Rightarrow> bool" where
  "unheard w d =
     (d < length (deferreds w) \<and> deferreds w ! d = Pending
      \<and> AwaitSlot d \<notin> set (map pc (tasks w)))"

subsection \<open>readFixture\<close>

datatype rstep = Still rphase | Returned json | Raised error

fun readFixture_step :: "io \<Rightarrow> rphase \<Rightarrow> world \<Rightarrow> rstep \<times> world" where
  "readFixture_step r AwaitClearing w =
     (case clearingFixture w of
        Pending \<Rightarrow> (Still AwaitClearing, w)
      | Fulfilled \<Rightarrow> (Still Reading, w)
      | Rejected e \<Rightarrow> (Raised e, w))"
| "readFixture_step r Reading w =
     (case readFile_parse r (disk w) of
        Inr v \<Rightarrow> (Returned v, w)
      | Inl e \<Rightarrow> (Still Resetting, w\<lparr>logged := logged w @ [e]\<rparr>))"
| "readFixture_step r Resetting w =
     (case r of
        Ok \<Rightarrow> (Returned (JObj []), w\<lparr>disk := Holds (JObj [])\<rparr>)
      | Fail e \<Rightarrow> (Raised e, w))"

subsection \<open>updateFixture\<close>

text \<open>
  The \<^verbatim>\<open>catch\<close> block runs \<^verbatim>\<open>updating.reject(error)\<close>: with \<^verbatim>\<open>updating\<close> being
  \<^verbatim>\<open>null\<close> that throws a \<^verbatim>\<open>TypeError\<close> out of the block; otherwise the deferred is
  rejected and the block ends normally, so that the call itself resolves. The error
  then reaches the calls that wait on the deferred, and when there is none it is an
  unhandled rejection. The end of the \<^verbatim>\<open>try\<close> block runs
  \<^verbatim>\<open>updating.resolve(...)\<close>, whose \<^verbatim>\<open>TypeError\<close> on \<^verbatim>\<open>null\<close> is caught by the
  same \<^verbatim>\<open>catch\<close>. The \<^verbatim>\<open>finally\<close> block sets \<^verbatim>\<open>updating\<close> to \<^verbatim>\<open>null\<close>.
\<close>

definition on_catch :: "error \<Rightarrow> world \<Rightarrow> outcome \<times> world" where
  "on_catch e w =
     (case updating w of
        None \<Rightarrow> (Throws TypeError, w\<lparr>updating := None\<rparr>)
      | Some d \<Rightarrow>
          (Returns None,
           w\<lparr>deferreds := settle d (Rejected e) (deferreds w),
             unhandled := (if unheard w d then unhandled w @ [e] else unhandled w),
             updating := None\<rparr>))"

definition on_written :: "world \<Rightarrow> outcome \<times> world" where
  "on_written w =
     (case updating w of
        None \<Rightarrow> on_catch TypeError w
      | Some d \<Rightarrow>
          (Returns None, w\<lparr>deferreds := settle d Fulfilled (deferreds w), updating := None\<rparr>))"

definition call_updateFixture :: "obj \<Rightarrow> world \<Rightarrow> world" where
  "call_updateFixture updates w =
     (case updating w of
        Some d \<Rightarrow> w\<lparr>tasks := tasks w @ [\<lparr>kind = Update updates, pc = AwaitSlot d\<rparr>]\<rparr>
      | None \<Rightarrow>
          w\<lparr>deferreds := deferreds w @ [Pending],
            updating := Some (length (deferreds w)),
            tasks := tasks w @ [\<lparr>kind = Update updates, pc = InRead AwaitClearing\<rparr>]\<rparr>)"

definition call_readFixture :: "world \<Rightarrow> world" where
  "call_readFixture w = w\<lparr>tasks := tasks w @ [\<lparr>kind = Read, pc = InRead AwaitClearing\<rparr>]\<rparr>"

text \<open>
  One resumption of a task: the promise it awaits has settled, with \<open>r\<close> the way the
  file operation ended where it awaits one, and the task runs on to its next
  \<^verbatim>\<open>await\<close> or to its end. A read sees the file as it is when the read ends, and a
  write changes the file when the write ends. A task whose promise is still pending, or
  which has finished, stays as it is.
\<close>

fun after_read :: "kind \<Rightarrow> rstep \<Rightarrow> world \<Rightarrow> pc \<times> world" where
  "after_read k (Still ph) w = (InRead ph, w)"
| "after_read Read (Returned v) w = (Done (Returns (Some v)), w)"
| "after_read Read (Raised e) w = (Done (Throws e), w)"
| "after_read (Update updates) (Returned v) w = (Writing (spread2 v updates), w)"
| "after_read (Update updates) (Raised e) w = (case on_catch e w of (out, w') \<Rightarrow> (Done out, w'))"

fun resume :: "io \<Rightarrow> kind \<Rightarrow> pc \<Rightarrow> world \<Rightarrow> pc \<times> world" where
  "resume r k (AwaitSlot d) w =
     (case deferred_state (deferreds w) d of
        Pending \<Rightarrow> (AwaitSlot d, w)
      | Fulfilled \<Rightarrow> (InRead AwaitClearing, w)
      | Rejected e \<Rightarrow> (Done (Throws e), w))"
| "resume r k (InRead ph) w =
     (case readFixture_step r ph w of (res, w') \<Rightarrow> after_read k res w')"
| "resume r k (Writing doc) w =
     (case r of
        Ok \<Rightarrow> (case on_written (w\<lparr>disk := Holds doc\<rparr>) of (out, w') \<Rightarrow> (Done out, w'))
      | Fail e \<Rightarrow> (case on_catch e w of (out, w') \<Rightarrow> (Done out, w')))"
| "resume r k (Done out) w = (Done out, w)"

subsection \<open>The event loop\<close>

text \<open>
  An event is a call of one of the two functions, the end of the load-time write, or
  the resumption of the \<open>i\<close>-th call. A schedule is a list of events; every order in
  which the runtime can run the tasks is a schedule, so that what holds of all
  schedules holds of the runtime. The concrete schedules further down follow the
  runtime's own order: tasks waiting on one promise are resumed in the order in which
  they began to wait, and file operations end in the order in which they were started.
\<close>

datatype event = CallUpdate obj | CallRead | ClearingDone io | Resume nat io

fun step :: "event \<Rightarrow> world \<Rightarrow> world" where
  "step (CallUpdate updates) w = call_updateFixture updates w"
| "step CallRead w = call_readFixture w"
| "step (ClearingDone r) w =
     (case clearingFixture w of
        Pending \<Rightarrow>
          (case r of
             Ok \<Rightarrow> w\<lparr>disk := Holds (JObj []), clearingFixture := Fulfilled\<rparr>
           | Fail e \<Rightarrow> w\<lparr>clearingFixture := Rejected e\<rparr>)
      | Fulfilled \<Rightarrow> w
      | Rejected e \<Rightarrow> w)"
| "step (Resume i r) w =
     (if i < length (tasks w)
      then (case resume r (kind (tasks w ! i)) (pc (tasks w ! i)) w of
              (p, w') \<Rightarrow> w'\<lparr>tasks := (tasks w')[i := (tasks w' ! i)\<lparr>pc := p\<rparr>]\<rparr>)
      else w)"

fun run :: "event list \<Rightarrow> world \<Rightarrow> world" where
  "run [] w = w"
| "run (e # es) w = run es (step e w)"

text \<open>The state right after the module is loaded, over a file \<open>f\<close>.\<close>

definition boot :: "filestate \<Rightarrow> world" where
  "boot f = \<lparr>disk = f, clearingFixture = Pending, updating = None, deferreds = [],
             tasks = [], logged = [], unhandled = []\<rparr>"

text \<open>What the \<open>i\<close>-th call has come to, and the document a file holds.\<close>

definition pc_of :: "world \<Rightarrow> nat \<Rightarrow> pc" where
  "pc_of w i = pc (tasks w ! i)"

fun document :: "filestate \<Rightarrow> string \<Rightarrow> json option" where
  "document (Holds (JObj kvs)) = map_of kvs"
| "document f = Map.empty"

text \<open>The number of calls of \<^verbatim>\<open>updateFixture\<close> that are inside their \<^verbatim>\<open>try\<close> block.\<close>

fun in_cycle :: "task \<Rightarrow> bool" where
  "in_cycle t =
     (case kind t of
        Read \<Rightarrow> False
      | Update u \<Rightarrow> (case pc t of InRead ph \<Rightarrow> True | Writing doc \<Rightarrow> True
                      | AwaitSlot d \<Rightarrow> False | Done out \<Rightarrow> False))"

definition cycles_running :: "world \<Rightarrow> nat" where
  "cycles_running w = length (filter in_cycle (tasks w))"

text \<open>
  A call made in the state \<open>w\<close> and resumed with nothing else running in between:
  \<open>rs\<close> lists how its awaits end, in order. \<open>answer w w'\<close> is what that call has come
  to in \<open>w'\<close>.
\<close>

definition lone_read :: "io list \<Rightarrow> world \<Rightarrow> world" where
  "lone_read rs w = run (CallRead # map (Resume (length (tasks w))) rs) w"

definition lone_update :: "obj \<Rightarrow> io list \<Rightarrow> world \<Rightarrow> world" where
  "lone_update updates rs w = run (CallUpdate updates # map (Resume (length (tasks w))) rs) w"

definition answer :: "world \<Rightarrow> world \<Rightarrow> pc" where
  "answer w w' = pc_of w' (length (tasks w))"

text \<open>A call has got past \<^verbatim>\<open>await clearingFixture\<close> and gone on to the file.\<close>

fun has_read :: "pc \<Rightarrow> bool" where
  "has_read (InRead Reading) = True"
| "has_read (InRead Resetting) = True"
| "has_read (Writing doc) = True"
| "has_read (Done (Returns (Some v))) = True"
| "has_read p = False"

text \<open>A stand-in for \<^verbatim>\<open>JSON.stringify\<close> in concrete examples: the keys, run together.\<close>

definition dump_keys :: "(string \<times> 'v) list \<Rightarrow> string" where
  "dump_keys kvs = concat (map fst kvs)"

text \<open>
  A state in which the load-time write has succeeded and the file has since come to be
  \<open>f\<close> (by this module or by anything else that writes the file).
\<close>

definition settled_world :: "filestate \<Rightarrow> world" where
  "settled_world f = (step (ClearingDone Ok) (boot Missing))\<lparr>disk := f\<rparr>"

subsection \<open>Concrete schedules\<close>

text \<open>
  Three calls \<^verbatim>\<open>updateFixture({a: 1})\<close>, \<^verbatim>\<open>updateFixture({b: 2})\<close>,
  \<^verbatim>\<open>updateFixture({c: 3})\<close> made one after the other in the same turn of the event
  loop. The first call finds \<^verbatim>\<open>updating\<close> empty and runs its three awaits; the
  others wait on its deferred and are resumed, in the order in which they started to
  wait, once it has resolved.
\<close>

definition patch_a :: obj where "patch_a = [(''a'', JNum 1)]"
definition patch_b :: obj where "patch_b = [(''b'', JNum 2)]"
definition patch_c :: obj where "patch_c = [(''c'', JNum 3)]"

definition first_update_done :: "event list" where
  "first_update_done = [Resume 0 Ok, Resume 0 Ok, Resume 0 Ok]"

definition two_updates_start :: "event list" where
  "two_updates_start =
     [ClearingDone Ok, CallUpdate patch_a, CallUpdate patch_b] @ first_update_done @ [Resume 1 Ok]"

definition two_updates :: "event list" where
  "two_updates = two_updates_start @ [Resume 1 Ok, Resume 1 Ok, Resume 1 Ok]"

definition three_updates_start :: "event list" where
  "three_updates_start =
     [ClearingDone Ok, CallUpdate patch_a, CallUpdate patch_b, CallUpdate patch_c]
     @ first_update_done @ [Resume 1 Ok, Resume 2 Ok]"

definition three_updates :: "event list" where
  "three_updates = three_updates_start
     @ [Resume 1 Ok, Resume 2 Ok, Resume 1 Ok, Resume 2 Ok, Resume 1 Ok, Resume 2 Ok]"

text \<open>
  Two calls, the first of which has its write fail for lack of space; and one call on
  its own, about to end its write.
\<close>

definition lone_writing :: world where
  "lone_writing = run [ClearingDone Ok, CallUpdate patch_a, Resume 0 Ok, Resume 0 Ok] (boot Missing)"

definition write_pending :: world where
  "write_pending =
     run [ClearingDone Ok, CallUpdate patch_a, CallUpdate patch_b, Resume 0 Ok, Resume 0 Ok]
       (boot Missing)"

definition failed_write :: "event list" where
  "failed_write =
     [ClearingDone Ok, CallUpdate patch_a, CallUpdate patch_b,
      Resume 0 Ok, Resume 0 Ok, Resume 0 (Fail (IoError ''ENOSPC'')), Resume 1 Ok]"

text \<open>
  A call of \<^verbatim>\<open>readFixture\<close> made before the load-time write has finished, and one
  whose read and whose rewrite of \<^verbatim>\<open>{}\<close> are both refused.
\<close>

definition early_read :: "event list" where
  "early_read = [CallRead, Resume 0 Ok, ClearingDone Ok, Resume 0 Ok, Resume 0 Ok]"

definition refused_read :: "event list" where
  "refused_read =
     [ClearingDone Ok, CallRead, Resume 0 Ok, Resume 0 (Fail (IoError ''EACCES'')),
      Resume 0 (Fail (IoError ''EACCES''))]"

section \<open>Properties\<close>

subsection \<open>Spread\<close>

lemma update_fresh: "k \<notin> fst ` set t \<Longrightarrow> AList.update k v t = t @ [(k, v)]"
  by (induction t) auto

lemma map_of_assign: "map_of (assign t ups) = map_of t ++ map_of (rev ups)"
proof (induction ups arbitrary: t)
  case Nil
  show ?case by simp
next
  case (Cons kv rest)
  obtain k v where kv: "kv = (k, v)" by (cases kv)
  have "map_of (assign t (kv # rest)) = map_of (AList.update k v t) ++ map_of (rev rest)"
    using Cons.IH kv by simp
  also have "\<dots> = (map_of t)(k \<mapsto> v) ++ map_of (rev rest)"
    by (simp add: update_conv')
  also have "\<dots> = map_of t ++ map_of (rev (kv # rest))"
    by (simp add: kv fun_eq_iff map_add_def split: option.splits)
  finally show ?case .
qed

lemma map_of_rev_distinct: "distinct (map fst xs) \<Longrightarrow> map_of (rev xs) = map_of xs"
  by (simp add: map_of_inject_set rev_map[symmetric])

lemma assign_distinct: "distinct (map fst (acc @ kvs)) \<Longrightarrow> assign acc kvs = acc @ kvs"
proof (induction kvs arbitrary: acc)
  case Nil
  show ?case by simp
next
  case (Cons kv rest)
  obtain k v where kv: "kv = (k, v)" by (cases kv)
  have fresh: "k \<notin> fst ` set acc" using Cons.prems kv by auto
  have "distinct (map fst ((acc @ [(k, v)]) @ rest))" using Cons.prems kv by simp
  then have "assign (acc @ [(k, v)]) rest = (acc @ [(k, v)]) @ rest" by (rule Cons.IH)
  then show ?case using fresh kv by (simp add: update_fresh)
qed

lemma spread2_object: "distinct (map fst D) \<Longrightarrow> spread2 (JObj D) P = JObj (assign D P)"
  using assign_distinct [of "[]" D] by (simp add: spread2_def)

lemma map_of_spread:
  "distinct (map fst D) \<Longrightarrow> distinct (map fst P) \<Longrightarrow> map_of (assign D P) = map_of D ++ map_of P"
  by (simp add: map_of_assign map_of_rev_distinct)

subsection \<open>The assertion helpers\<close>

lemma truthy_str_iff: "truthy_str (map_of ps p) = (\<exists>v. map_of ps p = Some v \<and> v \<noteq> [])"
  by (cases "map_of ps p") auto

lemma falsy_str_iff: "(\<not> truthy_str (map_of ps p)) = (p \<notin> fst ` set ps \<or> map_of ps p = Some [])"
proof (cases "map_of ps p")
  case None
  then have "p \<notin> fst ` set ps" by (simp add: map_of_eq_None_iff)
  with None show ?thesis by simp
next
  case (Some v)
  then have "p \<in> fst ` set ps" by (metis map_of_eq_None_iff option.distinct(1))
  with Some show ?thesis by simp
qed

lemma own_key_iff: "(map_of ob q = None) = (q \<notin> fst ` set ob)"
  by (simp add: map_of_eq_None_iff)

lemma falsy_looked_iff:
  "(\<not> truthy_looked (property_get ob q))
     = ((q \<notin> fst ` set ob \<and> q \<notin> set object_prototype_names)
        \<or> (\<exists>v. property_get ob q = Own v \<and> \<not> truthy v))"
proof (cases "map_of ob q")
  case None
  then have "q \<notin> fst ` set ob" by (simp add: own_key_iff)
  with None show ?thesis by (simp add: property_get_def)
next
  case (Some v)
  then have "q \<in> fst ` set ob" by (metis own_key_iff option.distinct(1))
  with Some show ?thesis by (simp add: property_get_def)
qed

lemma truthy_looked_iff:
  "truthy_looked (property_get ob q)
     = ((\<exists>v. property_get ob q = Own v \<and> truthy v)
        \<or> (q \<notin> fst ` set ob \<and> q \<in> set object_prototype_names))"
proof (cases "map_of ob q")
  case None
  then have "q \<notin> fst ` set ob" by (simp add: own_key_iff)
  with None show ?thesis by (simp add: property_get_def)
next
  case (Some v)
  then have "q \<in> fst ` set ob" by (metis own_key_iff option.distinct(1))
  with Some show ?thesis by (simp add: property_get_def)
qed

text \<open>
  Claim C7, amended. \<^verbatim>\<open>requiredParam\<close> throws an \<^verbatim>\<open>Error\<close> whose message ends with
  the rendering of the structure exactly when the parameter is absent or its value is
  the empty string, and returns normally exactly when it is there with a non-empty
  value. \<^verbatim>\<open>requiredHeader\<close>, given a name that is a header name, does the same for the
  header under the lower-cased name; given any other name it throws the
  \<^verbatim>\<open>TypeError\<close> of \<^verbatim>\<open>headers.get\<close>, which carries no rendering. \<^verbatim>\<open>requiredProperty\<close>
  throws an \<^verbatim>\<open>Error\<close> whose message ends with the rendering of the object exactly when
  \<^verbatim>\<open>object[property]\<close> is \<^verbatim>\<open>undefined\<close> or falsy: the key is neither an own property
  nor a member of \<^verbatim>\<open>Object.prototype\<close>, or it is an own property with a falsy value
  (\<^verbatim>\<open>null\<close>, \<^verbatim>\<open>false\<close>, \<^verbatim>\<open>0\<close> or the empty string). It returns normally exactly when
  the key is an own property with a truthy value, or is not an own property and names a
  member of \<^verbatim>\<open>Object.prototype\<close>.
\<close>

theorem required_helpers:
  \<open>((\<exists>pre. requiredParam S ps p = Inl (Error (pre @ S (fromEntries [] ps))))
      = (p \<notin> fst ` set ps \<or> params_get ps p = Some []))
   \<and> ((requiredParam S ps p = Inr ()) = (\<exists>v. params_get ps p = Some v \<and> v \<noteq> []))
   \<and> (valid_header_name h \<longrightarrow>
        ((\<exists>pre. requiredHeader S hs h = Inl (Error (pre @ S (fromEntries [] hs))))
           = (map lower_char h \<notin> fst ` set hs \<or> headers_get hs h = Inr (Some [])))
      \<and> ((requiredHeader S hs h = Inr ()) = (\<exists>v. headers_get hs h = Inr (Some v) \<and> v \<noteq> [])))
   \<and> (\<not> valid_header_name h \<longrightarrow> requiredHeader S hs h = Inl TypeError)
   \<and> ((\<exists>pre. requiredProperty T ob q = Inl (Error (pre @ T ob)))
      = ((q \<notin> fst ` set ob \<and> q \<notin> set object_prototype_names)
         \<or> (\<exists>v. property_get ob q = Own v \<and> \<not> truthy v)))
   \<and> ((requiredProperty T ob q = Inr ())
      = ((\<exists>v. property_get ob q = Own v \<and> truthy v)
         \<or> (q \<notin> fst ` set ob \<and> q \<in> set object_prototype_names)))\<close>
proof -
  have a: "(\<exists>pre. requiredParam S ps p = Inl (Error (pre @ S (fromEntries [] ps))))
      = (p \<notin> fst ` set ps \<or> params_get ps p = Some [])"
    unfolding requiredParam_def params_get_def falsy_str_iff [symmetric] by auto
  have b: "(requiredParam S ps p = Inr ()) = (\<exists>v. params_get ps p = Some v \<and> v \<noteq> [])"
    unfolding requiredParam_def params_get_def truthy_str_iff [symmetric] by auto
  have c: "(\<exists>pre. requiredHeader S hs h = Inl (Error (pre @ S (fromEntries [] hs))))
      = (map lower_char h \<notin> fst ` set hs \<or> headers_get hs h = Inr (Some []))"
    if v: "valid_header_name h"
  proof -
    have g: "headers_get hs h = Inr (map_of hs (map lower_char h))"
      using v by (simp add: headers_get_def)
    have "(\<exists>pre. requiredHeader S hs h = Inl (Error (pre @ S (fromEntries [] hs))))
        = (\<not> truthy_str (map_of hs (map lower_char h)))"
      unfolding requiredHeader_def g by auto
    then show ?thesis unfolding g falsy_str_iff by simp
  qed
  have d: "(requiredHeader S hs h = Inr ()) = (\<exists>v. headers_get hs h = Inr (Some v) \<and> v \<noteq> [])"
    if v: "valid_header_name h"
  proof -
    have g: "headers_get hs h = Inr (map_of hs (map lower_char h))"
      using v by (simp add: headers_get_def)
    have "(requiredHeader S hs h = Inr ()) = truthy_str (map_of hs (map lower_char h))"
      unfolding requiredHeader_def g by auto
    then show ?thesis unfolding g truthy_str_iff by simp
  qed
  have i: "requiredHeader S hs h = Inl TypeError" if "\<not> valid_header_name h"
    using that by (simp add: requiredHeader_def headers_get_def)
  have e: "(\<exists>pre. requiredProperty T ob q = Inl (Error (pre @ T ob)))
      = ((q \<notin> fst ` set ob \<and> q \<notin> set object_prototype_names)
         \<or> (\<exists>v. property_get ob q = Own v \<and> \<not> truthy v))"
    unfolding falsy_looked_iff [symmetric] requiredProperty_def by auto
  have f: "(requiredProperty T ob q = Inr ())
      = ((\<exists>v. property_get ob q = Own v \<and> truthy v)
         \<or> (q \<notin> fst ` set ob \<and> q \<in> set object_prototype_names))"
    unfolding truthy_looked_iff [symmetric] requiredProperty_def by auto
  from a b c d i e f show ?thesis by blast
qed

theorem required_helpers_witness:
  \<open>requiredParam dump_keys [(''id'', ''7'')] ''id'' = Inr ()
   \<and> (\<exists>pre. requiredParam dump_keys [(''id'', ''7'')] ''user'' = Inl (Error (pre @ ''id'')))
   \<and> requiredHeader dump_keys [(''authorization'', ''x'')] ''Authorization'' = Inr ()
   \<and> (\<exists>pre. requiredHeader dump_keys [(''authorization'', [])] ''Authorization''
              = Inl (Error (pre @ ''authorization'')))
   \<and> requiredHeader dump_keys [(''authorization'', ''x'')] ''bad name'' = Inl TypeError
   \<and> requiredProperty dump_keys [(''to'', JStr ''a@b.c'')] ''to'' = Inr ()
   \<and> (\<exists>pre. requiredProperty dump_keys [(''to'', JNum 0)] ''to'' = Inl (Error (pre @ ''to'')))
   \<and> (\<exists>pre. requiredProperty dump_keys [(''to'', JNum 1)] ''cc'' = Inl (Error (pre @ ''to'')))
   \<and> requiredProperty dump_keys [(''to'', JNum 1)] ''valueOf'' = Inr ()\<close>
  using required_helpers [of dump_keys "[(''id'', ''7'')]" "''id''" "''Authorization''"
      "[(''authorization'', ''x'')]" dump_keys "[(''to'', JStr ''a@b.c'')]" "''to''"]
    required_helpers [of dump_keys "[(''id'', ''7'')]" "''user''" "''Authorization''"
      "[(''authorization'', [])]" dump_keys "[(''to'', JNum 0)]" "''to''"]
    required_helpers [of dump_keys "[(''id'', ''7'')]" "''user''" "''bad name''"
      "[(''authorization'', ''x'')]" dump_keys "[(''to'', JNum 1)]" "''cc''"]
    required_helpers [of dump_keys "[(''id'', ''7'')]" "''user''" "''bad name''"
      "[(''authorization'', ''x'')]" dump_keys "[(''to'', JNum 1)]" "''valueOf''"]
  by (simp add: params_get_def headers_get_def property_get_def lower_char_def dump_keys_def
      valid_header_name_def token_chars_def object_prototype_names_def)

text \<open>
  Claim C7 as stated has \<^verbatim>\<open>requiredProperty\<close> throw whenever the key is absent, and
  every throw carry the rendering. On the empty object the key \<^verbatim>\<open>toString\<close> is absent,
  yet \<^verbatim>\<open>object[property]\<close> finds the inherited function and the helper returns; and for
  the empty header name \<^verbatim>\<open>requiredHeader\<close> throws a \<^verbatim>\<open>TypeError\<close> with no rendering.
\<close>

theorem required_helpers_inherited_and_invalid:
  \<open>requiredProperty dump_keys [] ''toString'' = Inr ()
   \<and> requiredHeader dump_keys [(''authorization'', ''x'')] [] = Inl TypeError\<close>
  by (simp add: requiredProperty_def requiredHeader_def headers_get_def property_get_def
      valid_header_name_def object_prototype_names_def)

subsection \<open>One call on its own\<close>

lemma lone_read_unfold:
  "lone_read rs w = run (map (Resume (length (tasks w))) rs) (call_readFixture w)"
  by (simp add: lone_read_def)

lemma lone_update_unfold:
  "lone_update P rs w = run (map (Resume (length (tasks w))) rs) (call_updateFixture P w)"
  by (simp add: lone_update_def)

lemmas lone_simps = lone_read_unfold lone_update_unfold answer_def pc_of_def
  call_readFixture_def call_updateFixture_def readFile_parse_def on_written_def on_catch_def
  settle_def

lemmas model_simps = boot_def call_updateFixture_def call_readFixture_def readFile_parse_def
  on_written_def on_catch_def settle_def deferred_state_def spread2_def pc_of_def

lemmas patch_simps = patch_a_def patch_b_def patch_c_def first_update_done_def

text \<open>
  Claim C10. \<^verbatim>\<open>readFixture\<close> checks nothing about the shape of what it parsed: when
  the file parses to a value \<open>v\<close>, whatever \<open>v\<close> is (\<^verbatim>\<open>null\<close>, a number, a string,
  an array as much as an object), the call returns \<open>v\<close> itself, prints nothing and
  leaves the file alone.
\<close>

theorem readFixture_no_shape_check:
  assumes "disk w = Holds v" and "clearingFixture w = Fulfilled"
  shows "answer w (lone_read [Ok, Ok] w) = Done (Returns (Some v))
       \<and> logged (lone_read [Ok, Ok] w) = logged w
       \<and> disk (lone_read [Ok, Ok] w) = Holds v"
  using assms by (simp add: lone_simps)

theorem readFixture_no_shape_check_witness:
  "answer (settled_world (Holds JNull)) (lone_read [Ok, Ok] (settled_world (Holds JNull)))
     = Done (Returns (Some JNull))
   \<and> answer (settled_world (Holds (JNum 5))) (lone_read [Ok, Ok] (settled_world (Holds (JNum 5))))
     = Done (Returns (Some (JNum 5)))
   \<and> logged (lone_read [Ok, Ok] (settled_world (Holds (JStr ''x'')))) = []
   \<and> disk (lone_read [Ok, Ok] (settled_world (Holds (JStr ''x'')))) = Holds (JStr ''x'')"
  using readFixture_no_shape_check [of "settled_world (Holds JNull)" JNull]
    readFixture_no_shape_check [of "settled_world (Holds (JNum 5))" "JNum 5"]
    readFixture_no_shape_check [of "settled_world (Holds (JStr ''x''))" "JStr ''x''"]
  by (simp add: settled_world_def boot_def)

text \<open>
  Claim C5, amended. In a call of \<^verbatim>\<open>readFixture\<close> made after the load-time write
  succeeded, when reading or parsing the file fails with \<open>e\<close>, the call prints \<open>e\<close> and
  starts a write of \<^verbatim>\<open>{}\<close>. When that write succeeds the file holds the empty object
  and the call returns the empty object. When that write fails with \<open>e'\<close>, the call
  throws \<open>e'\<close> to its caller: the \<^verbatim>\<open>await\<close> sits in the \<^verbatim>\<open>catch\<close> block, with
  nothing around it.
\<close>

theorem readFixture_failure:
  assumes "clearingFixture w = Fulfilled" and "readFile_parse r (disk w) = Inl e"
  shows "answer w (lone_read [Ok, r] w) = InRead Resetting
       \<and> logged (lone_read [Ok, r] w) = logged w @ [e]
       \<and> answer w (lone_read [Ok, r, Ok] w) = Done (Returns (Some (JObj [])))
       \<and> disk (lone_read [Ok, r, Ok] w) = Holds (JObj [])
       \<and> logged (lone_read [Ok, r, Ok] w) = logged w @ [e]
       \<and> answer w (lone_read [Ok, r, Fail e'] w) = Done (Throws e')"
  using assms by (simp add: lone_read_unfold answer_def pc_of_def call_readFixture_def)

theorem readFixture_failure_witness:
  "answer (settled_world Garbage) (lone_read [Ok, Ok, Ok] (settled_world Garbage))
     = Done (Returns (Some (JObj [])))
   \<and> disk (lone_read [Ok, Ok, Ok] (settled_world Garbage)) = Holds (JObj [])
   \<and> logged (lone_read [Ok, Ok, Ok] (settled_world Garbage)) = [SyntaxError]
   \<and> answer (settled_world Garbage) (lone_read [Ok, Ok, Fail (IoError ''EACCES'')] (settled_world Garbage))
     = Done (Throws (IoError ''EACCES''))"
  using readFixture_failure [of "settled_world Garbage" Ok SyntaxError "IoError ''EACCES''"]
  by (simp add: settled_world_def boot_def readFile_parse_def)

text \<open>
  Claim C5 as stated says that \<^verbatim>\<open>readFixture\<close> never throws. Here the read is refused
  and then the rewrite of \<^verbatim>\<open>{}\<close> is refused as well: the call throws.
\<close>

theorem readFixture_raises:
  "pc_of (run refused_read (boot Missing)) 0 = Done (Throws (IoError ''EACCES''))"
  by (simp add: refused_read_def model_simps)

text \<open>
  Claim C4. A call \<^verbatim>\<open>updateFixture(P)\<close> made while no update is in flight, over a
  file that holds the object \<open>D\<close>, with its read and its write succeeding, leaves the
  file holding \<open>D\<close> with the entries of \<open>P\<close> written over it: every key of \<open>P\<close> has
  \<open>P\<close>'s value, every other key has the value it had in \<open>D\<close>, and no key of \<open>D\<close> is
  lost. The call resolves.
\<close>

theorem update_uncontended:
  assumes "disk w = Holds (JObj D)" and "clearingFixture w = Fulfilled" and "updating w = None"
    and "distinct (map fst D)" and "distinct (map fst P)"
  shows "disk (lone_update P [Ok, Ok, Ok] w) = Holds (JObj (assign D P))
      \<and> document (disk (lone_update P [Ok, Ok, Ok] w)) = map_of D ++ map_of P
      \<and> (\<forall>k v. map_of P k = Some v \<longrightarrow> document (disk (lone_update P [Ok, Ok, Ok] w)) k = Some v)
      \<and> (\<forall>k. k \<notin> fst ` set P \<longrightarrow> document (disk (lone_update P [Ok, Ok, Ok] w)) k = map_of D k)
      \<and> fst ` set D \<subseteq> dom (document (disk (lone_update P [Ok, Ok, Ok] w)))
      \<and> answer w (lone_update P [Ok, Ok, Ok] w) = Done (Returns None)"
proof -
  have d: "disk (lone_update P [Ok, Ok, Ok] w) = Holds (JObj (assign D P))"
    using assms by (simp add: lone_simps spread2_object)
  have a: "answer w (lone_update P [Ok, Ok, Ok] w) = Done (Returns None)"
    using assms by (simp add: lone_simps)
  have m: "document (disk (lone_update P [Ok, Ok, Ok] w)) = map_of D ++ map_of P"
    using d assms by (simp add: map_of_spread)
  have k1: "\<forall>k v. map_of P k = Some v \<longrightarrow> (map_of D ++ map_of P) k = Some v"
    by (simp add: map_add_def)
  have k2: "\<forall>k. k \<notin> fst ` set P \<longrightarrow> (map_of D ++ map_of P) k = map_of D k"
  proof (intro allI impI)
    fix k assume "k \<notin> fst ` set P"
    then have "map_of P k = None" by (simp add: map_of_eq_None_iff)
    then show "(map_of D ++ map_of P) k = map_of D k" by (simp add: map_add_def)
  qed
  have k3: "fst ` set D \<subseteq> dom (map_of D ++ map_of P)"
    by (simp add: dom_map_of_conv_image_fst)
  show ?thesis using d a m k1 k2 k3 by simp
qed

theorem update_uncontended_witness:
  "disk (lone_update [(''a'', JNum 7), (''n'', JNull)] [Ok, Ok, Ok]
           (settled_world (Holds (JObj [(''a'', JNum 1), (''z'', JStr ''keep'')]))))
     = Holds (JObj [(''a'', JNum 7), (''z'', JStr ''keep''), (''n'', JNull)])
   \<and> answer (settled_world (Holds (JObj [(''a'', JNum 1), (''z'', JStr ''keep'')])))
        (lone_update [(''a'', JNum 7), (''n'', JNull)] [Ok, Ok, Ok]
           (settled_world (Holds (JObj [(''a'', JNum 1), (''z'', JStr ''keep'')]))))
     = Done (Returns None)"
  using update_uncontended [of "settled_world (Holds (JObj [(''a'', JNum 1), (''z'', JStr ''keep'')]))"
      "[(''a'', JNum 1), (''z'', JStr ''keep'')]" "[(''a'', JNum 7), (''n'', JNull)]"]
  by (simp add: settled_world_def boot_def)

text \<open>
  Claim C9. A call \<^verbatim>\<open>updateFixture(P)\<close> made while no update is in flight, over a
  file that cannot be read or parsed, does not reject, whatever becomes of its writes.
  When the writes succeed, the file is first reset to the empty object, and then holds
  exactly \<open>P\<close>: its keys are the keys of \<open>P\<close> and nothing of the old content is left.
\<close>

theorem update_on_unreadable:
  assumes "clearingFixture w = Fulfilled" and "updating w = None"
    and "readFile_parse r (disk w) = Inl e" and "distinct (map fst P)"
  shows "disk (lone_update P [Ok, r, Ok] w) = Holds (JObj [])
      \<and> logged (lone_update P [Ok, r, Ok] w) = logged w @ [e]
      \<and> answer w (lone_update P [Ok, r, Ok] w) = Writing (JObj P)
      \<and> disk (lone_update P [Ok, r, Ok, Ok] w) = Holds (JObj P)
      \<and> dom (document (disk (lone_update P [Ok, r, Ok, Ok] w))) = fst ` set P
      \<and> answer w (lone_update P [Ok, r, Ok, Ok] w) = Done (Returns None)
      \<and> answer w (lone_update P [Ok, r, r2, r3] w) = Done (Returns None)"
proof -
  have s: "spread2 (JObj []) P = JObj P"
    using assms(4) spread2_object [of "[]" P] assign_distinct [of "[]" P] by simp
  have a: "disk (lone_update P [Ok, r, Ok] w) = Holds (JObj [])
      \<and> logged (lone_update P [Ok, r, Ok] w) = logged w @ [e]"
    using assms by (simp add: lone_simps)
  have b: "answer w (lone_update P [Ok, r, Ok] w) = Writing (JObj P)"
    using assms s by (simp add: lone_simps)
  have c: "disk (lone_update P [Ok, r, Ok, Ok] w) = Holds (JObj P)"
    using assms s by (simp add: lone_simps)
  have d: "answer w (lone_update P [Ok, r, Ok, Ok] w) = Done (Returns None)"
    using assms s by (simp add: lone_simps)
  have e: "answer w (lone_update P [Ok, r, r2, r3] w) = Done (Returns None)"
    using assms s by (cases r2; cases r3) (simp_all add: lone_simps)
  show ?thesis using a b c d e by (simp add: dom_map_of_conv_image_fst)
qed

theorem update_on_unreadable_witness:
  "disk (lone_update [(''a'', JNum 7)] [Ok, Ok, Ok] (settled_world Garbage)) = Holds (JObj [])
   \<and> disk (lone_update [(''a'', JNum 7)] [Ok, Ok, Ok, Ok] (settled_world Garbage))
       = Holds (JObj [(''a'', JNum 7)])
   \<and> answer (settled_world Garbage) (lone_update [(''a'', JNum 7)] [Ok, Ok, Ok, Ok] (settled_world Garbage))
       = Done (Returns None)"
  using update_on_unreadable [of "settled_world Garbage" Ok SyntaxError "[(''a'', JNum 7)]" Ok Ok]
  by (simp add: settled_world_def boot_def readFile_parse_def)

subsection \<open>What every schedule preserves\<close>

lemma on_catch_keeps:
  "on_catch e w = (out, w') \<Longrightarrow>
     tasks w' = tasks w \<and> clearingFixture w' = clearingFixture w \<and> disk w' = disk w
     \<and> out \<noteq> Returns (Some v)"
  by (auto simp: on_catch_def split: option.splits)

lemma on_written_keeps:
  "on_written w = (out, w') \<Longrightarrow>
     tasks w' = tasks w \<and> clearingFixture w' = clearingFixture w \<and> disk w' = disk w
     \<and> out \<noteq> Returns (Some v)"
  by (auto simp: on_written_def on_catch_def split: option.splits)

lemma readFixture_step_keeps:
  "readFixture_step r ph w = (res, w') \<Longrightarrow>
     tasks w' = tasks w \<and> clearingFixture w' = clearingFixture w \<and> updating w' = updating w
     \<and> deferreds w' = deferreds w"
  by (cases ph) (auto split: settled.splits sum.splits io.splits)

lemma readFixture_step_cleared:
  "readFixture_step r ph w = (res, w') \<Longrightarrow> clearingFixture w \<noteq> Fulfilled \<Longrightarrow>
     ph = AwaitClearing \<Longrightarrow> res = Still AwaitClearing \<or> (\<exists>e. res = Raised e)"
  by (auto split: settled.splits)

lemma after_read_keeps:
  "after_read k res w = (p, w') \<Longrightarrow>
     tasks w' = tasks w \<and> clearingFixture w' = clearingFixture w"
  by (cases k; cases res) (auto split: prod.splits dest: on_catch_keeps)

lemma after_read_has_read:
  "after_read k res w = (p, w') \<Longrightarrow> has_read p \<Longrightarrow> res \<noteq> Still AwaitClearing \<and> (\<forall>e. res \<noteq> Raised e)"
  by (cases k; cases res) (auto split: prod.splits simp: on_catch_def split: option.splits)

lemma resume_keeps:
  "resume r k p w = (p', w') \<Longrightarrow> tasks w' = tasks w \<and> clearingFixture w' = clearingFixture w"
proof (cases p)
  case (AwaitSlot d)
  assume "resume r k p w = (p', w')"
  with AwaitSlot show ?thesis by (auto split: settled.splits)
next
  case (InRead ph)
  assume a: "resume r k p w = (p', w')"
  obtain res w1 where rs: "readFixture_step r ph w = (res, w1)" by (cases "readFixture_step r ph w")
  with a InRead have "after_read k res w1 = (p', w')" by simp
  with rs show ?thesis using readFixture_step_keeps after_read_keeps by metis
next
  case (Writing doc)
  assume "resume r k p w = (p', w')"
  with Writing show ?thesis
    by (auto split: io.splits prod.splits dest: on_catch_keeps on_written_keeps)
next
  case (Done out)
  assume "resume r k p w = (p', w')"
  with Done show ?thesis by simp
qed

lemma resume_has_read:
  assumes "resume r k p w = (p', w')" and "has_read p'"
  shows "has_read p \<or> clearingFixture w = Fulfilled"
proof (cases p)
  case (AwaitSlot d)
  with assms show ?thesis by (auto split: settled.splits)
next
  case (InRead ph)
  obtain res w1 where rs: "readFixture_step r ph w = (res, w1)" by (cases "readFixture_step r ph w")
  with assms InRead have ar: "after_read k res w1 = (p', w')" by simp
  show ?thesis
  proof (cases ph)
    case AwaitClearing
    show ?thesis
    proof (rule ccontr)
      assume "\<not> ?thesis"
      then have "clearingFixture w \<noteq> Fulfilled" by simp
      with rs AwaitClearing have "res = Still AwaitClearing \<or> (\<exists>e. res = Raised e)"
        by (rule_tac readFixture_step_cleared) auto
      with ar assms(2) show False using after_read_has_read by blast
    qed
  next
    case Reading
    with InRead show ?thesis by simp
  next
    case Resetting
    with InRead show ?thesis by simp
  qed
next
  case (Writing doc)
  then show ?thesis by simp
next
  case (Done out)
  with assms show ?thesis by simp
qed

lemma step_cleared_before_read:
  assumes "\<forall>t \<in> set (tasks w). has_read (pc t) \<longrightarrow> clearingFixture w = Fulfilled"
  shows "\<forall>t \<in> set (tasks (step ev w)). has_read (pc t) \<longrightarrow> clearingFixture (step ev w) = Fulfilled"
proof (cases ev)
  case (CallUpdate u)
  with assms show ?thesis by (auto simp: call_updateFixture_def split: option.splits)
next
  case CallRead
  with assms show ?thesis by (auto simp: call_readFixture_def)
next
  case (ClearingDone r)
  with assms show ?thesis by (auto split: settled.splits io.splits)
next
  case (Resume i r)
  show ?thesis
  proof (cases "i < length (tasks w)")
    case False
    with Resume assms show ?thesis by simp
  next
    case True
    obtain p' w' where rs: "resume r (kind (tasks w ! i)) (pc (tasks w ! i)) w = (p', w')"
      by (cases "resume r (kind (tasks w ! i)) (pc (tasks w ! i)) w")
    have keep: "tasks w' = tasks w" "clearingFixture w' = clearingFixture w"
      using resume_keeps [OF rs] by simp_all
    have st: "step ev w = w'\<lparr>tasks := (tasks w)[i := (tasks w ! i)\<lparr>pc := p'\<rparr>]\<rparr>"
      using Resume True rs keep by simp
    have new: "has_read p' \<longrightarrow> clearingFixture w = Fulfilled"
      using resume_has_read [OF rs] assms True by (metis nth_mem)
    show ?thesis
    proof
      fix t assume "t \<in> set (tasks (step ev w))"
      then have "t \<in> set ((tasks w)[i := (tasks w ! i)\<lparr>pc := p'\<rparr>])" using st by simp
      then have "t = (tasks w ! i)\<lparr>pc := p'\<rparr> \<or> t \<in> set (tasks w)"
        by (metis in_set_conv_nth length_list_update nth_list_update_eq nth_list_update_neq)
      then show "has_read (pc t) \<longrightarrow> clearingFixture (step ev w) = Fulfilled"
        using new assms st keep by auto
    qed
  qed
qed

lemma run_cleared_before_read:
  "\<forall>t \<in> set (tasks w). has_read (pc t) \<longrightarrow> clearingFixture w = Fulfilled \<Longrightarrow>
   \<forall>t \<in> set (tasks (run es w)). has_read (pc t) \<longrightarrow> clearingFixture (run es w) = Fulfilled"
proof (induction es arbitrary: w)
  case Nil
  then show ?case by simp
next
  case (Cons ev es)
  have "\<forall>t \<in> set (tasks (step ev w)). has_read (pc t) \<longrightarrow> clearingFixture (step ev w) = Fulfilled"
    using Cons.prems by (rule step_cleared_before_read)
  then show ?case using Cons.IH by simp
qed

lemma readFixture_step_disk:
  "readFixture_step r ph w = (res, w') \<Longrightarrow>
     disk w' = disk w \<or> disk w' = Holds (JObj [])"
  by (cases ph) (auto split: settled.splits sum.splits io.splits)

lemma after_read_disk:
  "after_read k res w = (p, w') \<Longrightarrow>
     disk w' = disk w \<and> (\<forall>doc. p = Writing doc \<longrightarrow> (\<exists>kvs. doc = JObj kvs))"
  by (cases k; cases res) (auto split: prod.splits simp: spread2_def dest: on_catch_keeps)

lemma resume_disk:
  assumes rs: "resume r k p w = (p', w')"
    and wr: "\<forall>doc. p = Writing doc \<longrightarrow> (\<exists>kvs. doc = JObj kvs)"
  shows "(disk w' = disk w \<or> (\<exists>kvs. disk w' = Holds (JObj kvs)))
       \<and> (\<forall>doc. p' = Writing doc \<longrightarrow> (\<exists>kvs. doc = JObj kvs))"
proof (cases p)
  case (AwaitSlot d)
  with rs show ?thesis by (auto split: settled.splits)
next
  case (InRead ph)
  obtain res w1 where r1: "readFixture_step r ph w = (res, w1)" by (cases "readFixture_step r ph w")
  have ar: "after_read k res w1 = (p', w')" using rs InRead r1 by simp
  show ?thesis using readFixture_step_disk [OF r1] after_read_disk [OF ar] by auto
next
  case (Writing doc)
  then obtain kvs where doc: "doc = JObj kvs" using wr by blast
  show ?thesis
  proof (cases r)
    case Ok
    with rs Writing obtain out where ow: "on_written (w\<lparr>disk := Holds doc\<rparr>) = (out, w')" and p': "p' = Done out"
      by (auto split: prod.splits)
    have "disk w' = Holds doc" using on_written_keeps [OF ow] by simp
    then show ?thesis using doc p' by simp
  next
    case (Fail e)
    with rs Writing obtain out where oc: "on_catch e w = (out, w')" and p': "p' = Done out"
      by (auto split: prod.splits)
    have "disk w' = disk w" using on_catch_keeps [OF oc] by simp
    then show ?thesis using p' by simp
  qed
next
  case (Done out)
  with rs show ?thesis by auto
qed

lemma step_object_on_disk:
  assumes c: "clearingFixture w = Fulfilled \<longrightarrow> (\<exists>kvs. disk w = Holds (JObj kvs))"
    and wr: "\<forall>t \<in> set (tasks w). \<forall>doc. pc t = Writing doc \<longrightarrow> (\<exists>kvs. doc = JObj kvs)"
  shows "(clearingFixture (step ev w) = Fulfilled \<longrightarrow> (\<exists>kvs. disk (step ev w) = Holds (JObj kvs)))
     \<and> (\<forall>t \<in> set (tasks (step ev w)). \<forall>doc. pc t = Writing doc \<longrightarrow> (\<exists>kvs. doc = JObj kvs))"
proof (cases ev)
  case (CallUpdate u)
  with assms show ?thesis by (cases "updating w") (auto simp: call_updateFixture_def)
next
  case CallRead
  with assms show ?thesis by (auto simp: call_readFixture_def)
next
  case (ClearingDone r)
  with assms show ?thesis by (cases "clearingFixture w"; cases r) auto
next
  case (Resume i r)
  show ?thesis
  proof (cases "i < length (tasks w)")
    case False
    with Resume assms show ?thesis by simp
  next
    case True
    obtain p' w' where rs: "resume r (kind (tasks w ! i)) (pc (tasks w ! i)) w = (p', w')"
      by (cases "resume r (kind (tasks w ! i)) (pc (tasks w ! i)) w")
    have keep: "tasks w' = tasks w" "clearingFixture w' = clearingFixture w"
      using resume_keeps [OF rs] by simp_all
    have st: "step ev w = w'\<lparr>tasks := (tasks w)[i := (tasks w ! i)\<lparr>pc := p'\<rparr>]\<rparr>"
      using Resume True rs keep by simp
    have "\<forall>doc. pc (tasks w ! i) = Writing doc \<longrightarrow> (\<exists>kvs. doc = JObj kvs)"
      using wr True by (metis nth_mem)
    then have rd: "(disk w' = disk w \<or> (\<exists>kvs. disk w' = Holds (JObj kvs)))
       \<and> (\<forall>doc. p' = Writing doc \<longrightarrow> (\<exists>kvs. doc = JObj kvs))"
      by (rule resume_disk [OF rs])
    have one: "clearingFixture (step ev w) = Fulfilled \<longrightarrow> (\<exists>kvs. disk (step ev w) = Holds (JObj kvs))"
      using rd c keep st by auto
    have two: "\<forall>t \<in> set (tasks (step ev w)). \<forall>doc. pc t = Writing doc \<longrightarrow> (\<exists>kvs. doc = JObj kvs)"
    proof
      fix t assume "t \<in> set (tasks (step ev w))"
      then have "t \<in> set ((tasks w)[i := (tasks w ! i)\<lparr>pc := p'\<rparr>])" using st by simp
      then have "t = (tasks w ! i)\<lparr>pc := p'\<rparr> \<or> t \<in> set (tasks w)"
        by (metis in_set_conv_nth length_list_update nth_list_update_eq nth_list_update_neq)
      then show "\<forall>doc. pc t = Writing doc \<longrightarrow> (\<exists>kvs. doc = JObj kvs)"
        using rd wr by auto
    qed
    show ?thesis using one two by simp
  qed
qed

lemma run_object_on_disk:
  "clearingFixture w = Fulfilled \<longrightarrow> (\<exists>kvs. disk w = Holds (JObj kvs)) \<Longrightarrow>
   \<forall>t \<in> set (tasks w). \<forall>doc. pc t = Writing doc \<longrightarrow> (\<exists>kvs. doc = JObj kvs) \<Longrightarrow>
   clearingFixture (run es w) = Fulfilled \<longrightarrow> (\<exists>kvs. disk (run es w) = Holds (JObj kvs))"
proof (induction es arbitrary: w)
  case Nil
  then show ?case by simp
next
  case (Cons ev es)
  have "(clearingFixture (step ev w) = Fulfilled \<longrightarrow> (\<exists>kvs. disk (step ev w) = Holds (JObj kvs)))
     \<and> (\<forall>t \<in> set (tasks (step ev w)). \<forall>doc. pc t = Writing doc \<longrightarrow> (\<exists>kvs. doc = JObj kvs))"
    using Cons.prems by (rule step_object_on_disk)
  then show ?case using Cons.IH [of "step ev w"] by simp
qed

lemma waits_for_clearing:
  "clearingFixture w = Pending \<Longrightarrow> i < length (tasks w) \<Longrightarrow> pc (tasks w ! i) = InRead AwaitClearing \<Longrightarrow>
   run (map (Resume i) rs) w = w"
proof (induction rs)
  case Nil
  show ?case by simp
next
  case (Cons r rs)
  have t: "(tasks w ! i)\<lparr>pc := InRead AwaitClearing\<rparr> = tasks w ! i"
    using Cons.prems(3) by (cases "tasks w ! i") simp
  have "step (Resume i r) w = w\<lparr>tasks := (tasks w)[i := (tasks w ! i)\<lparr>pc := InRead AwaitClearing\<rparr>]\<rparr>"
    using Cons.prems by simp
  also have "\<dots> = w" unfolding t by simp
  finally have "step (Resume i r) w = w" .
  then show ?case using Cons by simp
qed

text \<open>
  Claim C8. The load-time write empties the file to \<^verbatim>\<open>{}\<close> whatever it held. A call
  of \<^verbatim>\<open>readFixture\<close> does not get past \<^verbatim>\<open>await clearingFixture\<close>, and does not
  touch the file, while that write is pending; in every schedule a call that has gone
  on to the file has done so after the write succeeded, and the file then holds an
  object. With the file missing at the start, a call made before the write has finished
  returns the empty object once it has, and prints nothing; with the file missing at the
  time of the read, the call creates it as \<^verbatim>\<open>{}\<close> and returns the empty object.
\<close>

theorem fixture_cleared_at_start:
  "disk (step (ClearingDone Ok) (boot f)) = Holds (JObj [])
   \<and> answer (boot f) (lone_read rs (boot f)) = InRead AwaitClearing
   \<and> disk (lone_read rs (boot f)) = f
   \<and> (\<forall>t \<in> set (tasks (run es (boot f))).
         has_read (pc t) \<longrightarrow> clearingFixture (run es (boot f)) = Fulfilled
                          \<and> (\<exists>kvs. disk (run es (boot f)) = Holds (JObj kvs)))
   \<and> pc_of (run early_read (boot Missing)) 0 = Done (Returns (Some (JObj [])))
   \<and> disk (run early_read (boot Missing)) = Holds (JObj [])
   \<and> logged (run early_read (boot Missing)) = []
   \<and> (clearingFixture w = Fulfilled \<and> disk w = Missing \<longrightarrow>
         answer w (lone_read [Ok, Ok, Ok] w) = Done (Returns (Some (JObj [])))
       \<and> disk (lone_read [Ok, Ok, Ok] w) = Holds (JObj []))"
proof -
  have a: "disk (step (ClearingDone Ok) (boot f)) = Holds (JObj [])"
    by (simp add: boot_def)
  have w: "lone_read rs (boot f) = call_readFixture (boot f)"
    unfolding lone_read_unfold
    by (rule waits_for_clearing) (simp_all add: boot_def call_readFixture_def)
  have b: "answer (boot f) (lone_read rs (boot f)) = InRead AwaitClearing"
    unfolding w by (simp add: answer_def pc_of_def boot_def call_readFixture_def)
  have c: "disk (lone_read rs (boot f)) = f"
    unfolding w by (simp add: boot_def call_readFixture_def)
  have d1: "\<forall>t \<in> set (tasks (run es (boot f))).
         has_read (pc t) \<longrightarrow> clearingFixture (run es (boot f)) = Fulfilled"
    by (rule run_cleared_before_read) (simp add: boot_def)
  have d2: "clearingFixture (run es (boot f)) = Fulfilled \<longrightarrow>
         (\<exists>kvs. disk (run es (boot f)) = Holds (JObj kvs))"
    by (rule run_object_on_disk) (simp_all add: boot_def)
  have d: "\<forall>t \<in> set (tasks (run es (boot f))).
         has_read (pc t) \<longrightarrow> clearingFixture (run es (boot f)) = Fulfilled
                          \<and> (\<exists>kvs. disk (run es (boot f)) = Holds (JObj kvs))"
    using d1 d2 by blast
  have e: "pc_of (run early_read (boot Missing)) 0 = Done (Returns (Some (JObj [])))
     \<and> disk (run early_read (boot Missing)) = Holds (JObj [])
     \<and> logged (run early_read (boot Missing)) = []"
    by (simp add: early_read_def boot_def call_readFixture_def pc_of_def readFile_parse_def)
  have g: "clearingFixture w = Fulfilled \<and> disk w = Missing \<longrightarrow>
         answer w (lone_read [Ok, Ok, Ok] w) = Done (Returns (Some (JObj [])))
       \<and> disk (lone_read [Ok, Ok, Ok] w) = Holds (JObj [])"
    by (simp add: lone_simps)
  show ?thesis using a b c d e g by blast
qed

theorem fixture_cleared_at_start_witness:
  "disk (step (ClearingDone Ok) (boot Garbage)) = Holds (JObj [])
   \<and> answer (boot Garbage) (lone_read [Ok, Ok] (boot Garbage)) = InRead AwaitClearing
   \<and> clearingFixture (run early_read (boot Garbage)) = Fulfilled
   \<and> disk (run early_read (boot Garbage)) = Holds (JObj [])
   \<and> answer (settled_world Missing) (lone_read [Ok, Ok, Ok] (settled_world Missing))
       = Done (Returns (Some (JObj [])))
   \<and> disk (lone_read [Ok, Ok, Ok] (settled_world Missing)) = Holds (JObj [])"
  using fixture_cleared_at_start [of Garbage "[Ok, Ok]" early_read "settled_world Missing"]
  by (simp add: settled_world_def early_read_def model_simps)

text \<open>
  No deferred is pending except the one \<^verbatim>\<open>updating\<close> holds: there is at most one
  pending token in any schedule.
\<close>

lemma settle_pending:
  assumes one: "\<forall>d < length ds. ds ! d = Pending \<longrightarrow> d = d0"
    and s: "s \<noteq> Pending" and d: "d < length (settle d0 s ds)"
  shows "settle d0 s ds ! d \<noteq> Pending"
proof (cases "d0 < length ds \<and> ds ! d0 = Pending")
  case True
  then have st: "settle d0 s ds = ds[d0 := s]" by (simp add: settle_def)
  have dl: "d < length ds" using d st by simp
  show ?thesis
  proof (cases "d = d0")
    case True
    then have "settle d0 s ds ! d = s" using st dl by simp
    then show ?thesis using s by simp
  next
    case False
    then have "settle d0 s ds ! d = ds ! d" using st by simp
    moreover have "ds ! d \<noteq> Pending" using one dl False by blast
    ultimately show ?thesis by simp
  qed
next
  case False
  then have st: "settle d0 s ds = ds" by (auto simp: settle_def)
  have dl: "d < length ds" using d st by simp
  have "ds ! d \<noteq> Pending" using one dl False by blast
  then show ?thesis using st by simp
qed

lemma on_catch_pending:
  assumes "\<forall>d < length (deferreds w). deferreds w ! d = Pending \<longrightarrow> updating w = Some d"
    and "on_catch e w = (out, w')"
  shows "\<forall>d < length (deferreds w'). deferreds w' ! d = Pending \<longrightarrow> updating w' = Some d"
proof (cases "updating w")
  case None
  with assms show ?thesis by (auto simp: on_catch_def)
next
  case (Some d0)
  have one: "\<forall>d < length (deferreds w). deferreds w ! d = Pending \<longrightarrow> d = d0"
    using assms(1) Some by simp
  have "deferreds w' = settle d0 (Rejected e) (deferreds w)"
    using assms(2) Some by (auto simp: on_catch_def)
  then show ?thesis using settle_pending [OF one] by simp
qed

lemma on_written_pending:
  assumes "\<forall>d < length (deferreds w). deferreds w ! d = Pending \<longrightarrow> updating w = Some d"
    and "on_written w = (out, w')"
  shows "\<forall>d < length (deferreds w'). deferreds w' ! d = Pending \<longrightarrow> updating w' = Some d"
proof (cases "updating w")
  case None
  with assms show ?thesis by (auto simp: on_written_def on_catch_def)
next
  case (Some d0)
  have one: "\<forall>d < length (deferreds w). deferreds w ! d = Pending \<longrightarrow> d = d0"
    using assms(1) Some by simp
  have "deferreds w' = settle d0 Fulfilled (deferreds w)"
    using assms(2) Some by (auto simp: on_written_def)
  then show ?thesis using settle_pending [OF one] by simp
qed

lemma resume_pending:
  assumes inv: "\<forall>d < length (deferreds w). deferreds w ! d = Pending \<longrightarrow> updating w = Some d"
    and rs: "resume r k p w = (p', w')"
  shows "\<forall>d < length (deferreds w'). deferreds w' ! d = Pending \<longrightarrow> updating w' = Some d"
proof (cases p)
  case (AwaitSlot d)
  with inv rs show ?thesis by (auto split: settled.splits)
next
  case (InRead ph)
  obtain res w1 where r1: "readFixture_step r ph w = (res, w1)" by (cases "readFixture_step r ph w")
  have k1: "updating w1 = updating w" "deferreds w1 = deferreds w"
    using readFixture_step_keeps [OF r1] by simp_all
  have inv1: "\<forall>d < length (deferreds w1). deferreds w1 ! d = Pending \<longrightarrow> updating w1 = Some d"
    using inv k1 by simp
  have ar: "after_read k res w1 = (p', w')" using rs InRead r1 by simp
  show ?thesis
  proof (cases "\<exists>u e. k = Update u \<and> res = Raised e")
    case True
    then obtain u e where "k = Update u" "res = Raised e" by blast
    with ar obtain out where "on_catch e w1 = (out, w')" by (auto split: prod.splits)
    with inv1 show ?thesis by (rule on_catch_pending)
  next
    case False
    then have "w' = w1" using ar by (cases k; cases res) auto
    with inv1 show ?thesis by simp
  qed
next
  case (Writing doc)
  show ?thesis
  proof (cases r)
    case Ok
    with rs Writing obtain out where "on_written (w\<lparr>disk := Holds doc\<rparr>) = (out, w')"
      by (auto split: prod.splits)
    moreover have "\<forall>d < length (deferreds (w\<lparr>disk := Holds doc\<rparr>)).
        deferreds (w\<lparr>disk := Holds doc\<rparr>) ! d = Pending \<longrightarrow> updating (w\<lparr>disk := Holds doc\<rparr>) = Some d"
      using inv by simp
    ultimately show ?thesis using on_written_pending by blast
  next
    case (Fail e)
    with rs Writing obtain out where "on_catch e w = (out, w')" by (auto split: prod.splits)
    with inv show ?thesis by (rule on_catch_pending)
  qed
next
  case (Done out)
  with inv rs show ?thesis by simp
qed

lemma step_pending:
  assumes inv: "\<forall>d < length (deferreds w). deferreds w ! d = Pending \<longrightarrow> updating w = Some d"
  shows "\<forall>d < length (deferreds (step ev w)).
           deferreds (step ev w) ! d = Pending \<longrightarrow> updating (step ev w) = Some d"
proof (cases ev)
  case (CallUpdate u)
  with inv show ?thesis
    by (cases "updating w") (auto simp: call_updateFixture_def nth_append)
next
  case CallRead
  with inv show ?thesis by (simp add: call_readFixture_def)
next
  case (ClearingDone r)
  with inv show ?thesis by (auto split: settled.splits io.splits)
next
  case (Resume i r)
  show ?thesis
  proof (cases "i < length (tasks w)")
    case False
    with Resume inv show ?thesis by simp
  next
    case True
    obtain p' w' where rs: "resume r (kind (tasks w ! i)) (pc (tasks w ! i)) w = (p', w')"
      by (cases "resume r (kind (tasks w ! i)) (pc (tasks w ! i)) w")
    have "\<forall>d < length (deferreds w'). deferreds w' ! d = Pending \<longrightarrow> updating w' = Some d"
      using inv rs by (rule resume_pending)
    then show ?thesis using Resume True rs by simp
  qed
qed

lemma pending_only_in_slot:
  "\<forall>d < length (deferreds (run es (boot f))).
     deferreds (run es (boot f)) ! d = Pending \<longrightarrow> updating (run es (boot f)) = Some d"
proof -
  have "\<forall>d < length (deferreds w). deferreds w ! d = Pending \<longrightarrow> updating w = Some d \<Longrightarrow>
        \<forall>d < length (deferreds (run es w)). deferreds (run es w) ! d = Pending \<longrightarrow> updating (run es w) = Some d"
    for w
  proof (induction es arbitrary: w)
    case Nil
    then show ?case by simp
  next
    case (Cons ev es)
    from Cons.prems have "\<forall>d < length (deferreds (step ev w)).
           deferreds (step ev w) ! d = Pending \<longrightarrow> updating (step ev w) = Some d"
      by (rule step_pending)
    then show ?case using Cons.IH by simp
  qed
  then show ?thesis by (simp add: boot_def)
qed

subsection \<open>Calls that overlap\<close>

lemma step_resume_writing:
  assumes "i < length (tasks w)" and "pc (tasks w ! i) = Writing doc"
  shows "step (Resume i r) w =
     (case (case r of Ok \<Rightarrow> on_written (w\<lparr>disk := Holds doc\<rparr>) | Fail e \<Rightarrow> on_catch e w) of
        (out, w') \<Rightarrow> w'\<lparr>tasks := (tasks w')[i := (tasks w' ! i)\<lparr>pc := Done out\<rparr>]\<rparr>)"
  using assms by (cases r) (simp_all split: prod.splits)

lemma unheard_iff:
  assumes "d < length (deferreds w)" and "deferreds w ! d = Pending"
  shows "unheard w d = (\<forall>j < length (tasks w). pc (tasks w ! j) \<noteq> AwaitSlot d)"
proof -
  have "(AwaitSlot d \<in> set (map pc (tasks w)))
      = (\<exists>j < length (map pc (tasks w)). map pc (tasks w) ! j = AwaitSlot d)"
    by (rule in_set_conv_nth)
  then have "(AwaitSlot d \<in> set (map pc (tasks w)))
      = (\<exists>j < length (tasks w). pc (tasks w ! j) = AwaitSlot d)"
    by auto
  then show ?thesis using assms by (auto simp: unheard_def)
qed

text \<open>
  Claim C3, amended. When the write of a call whose cycle runs with the pending
  deferred \<open>d\<close> in \<^verbatim>\<open>updating\<close> fails with \<open>e\<close>, the \<^verbatim>\<open>catch\<close> block rejects \<open>d\<close> with
  \<open>e\<close> and does not throw again: the call itself resolves. Every call waiting on \<open>d\<close>
  throws \<open>e\<close> when it is resumed, without starting a cycle; when no call is waiting on
  \<open>d\<close>, the rejection has no handler and \<open>e\<close> is reported to the process as an
  unhandled rejection. Whether the write succeeds or fails, \<^verbatim>\<open>updating\<close> is
  \<^verbatim>\<open>null\<close> afterwards; a write that succeeds leaves no unhandled rejection, and where
  none was left the next call of \<^verbatim>\<open>updateFixture\<close> claims \<^verbatim>\<open>updating\<close> with a fresh
  deferred and goes on to read.
\<close>

theorem write_failure_settles_slot:
  assumes "i < length (tasks w)" and "pc (tasks w ! i) = Writing doc"
  shows "updating (step (Resume i r) w) = None
     \<and> (\<forall>d. updating w = Some d \<and> d < length (deferreds w) \<and> deferreds w ! d = Pending \<longrightarrow>
          pc_of (step (Resume i (Fail e)) w) i = Done (Returns None)
        \<and> deferred_state (deferreds (step (Resume i (Fail e)) w)) d = Rejected e
        \<and> (\<forall>j r'. j < length (tasks w) \<and> pc (tasks w ! j) = AwaitSlot d \<longrightarrow>
             pc_of (step (Resume j r') (step (Resume i (Fail e)) w)) j = Done (Throws e))
        \<and> ((\<exists>j < length (tasks w). pc (tasks w ! j) = AwaitSlot d) \<longrightarrow>
             unhandled (step (Resume i (Fail e)) w) = unhandled w)
        \<and> ((\<forall>j < length (tasks w). pc (tasks w ! j) \<noteq> AwaitSlot d) \<longrightarrow>
             unhandled (step (Resume i (Fail e)) w) = unhandled w @ [e]))
     \<and> unhandled (step (Resume i Ok) w) = unhandled w
     \<and> (unhandled (step (Resume i r) w) = unhandled w \<longrightarrow>
          pc_of (step (CallUpdate u) (step (Resume i r) w)) (length (tasks w)) = InRead AwaitClearing
        \<and> updating (step (CallUpdate u) (step (Resume i r) w)) = Some (length (deferreds w)))"
proof -
  have a: "updating (step (Resume i r) w) = None"
    unfolding step_resume_writing [OF assms]
    by (cases r; cases "updating w") (simp_all add: on_written_def on_catch_def)
  have len: "length (tasks (step (Resume i r) w)) = length (tasks w)"
    "length (deferreds (step (Resume i r) w)) = length (deferreds w)"
    unfolding step_resume_writing [OF assms]
    by (cases r; cases "updating w"; simp add: on_written_def on_catch_def settle_def)+
  have c: "pc_of (step (CallUpdate u) (step (Resume i r) w)) (length (tasks w)) = InRead AwaitClearing"
    using a len by (simp add: call_updateFixture_def pc_of_def nth_append)
  have d: "updating (step (CallUpdate u) (step (Resume i r) w)) = Some (length (deferreds w))"
    using a len by (simp add: call_updateFixture_def)
  have ok: "unhandled (step (Resume i Ok) w) = unhandled w"
    unfolding step_resume_writing [OF assms]
    by (cases "updating w") (simp_all add: on_written_def on_catch_def)
  have b: "pc_of (step (Resume i (Fail e)) w) i = Done (Returns None)
        \<and> deferred_state (deferreds (step (Resume i (Fail e)) w)) d = Rejected e
        \<and> (\<forall>j r'. j < length (tasks w) \<and> pc (tasks w ! j) = AwaitSlot d \<longrightarrow>
             pc_of (step (Resume j r') (step (Resume i (Fail e)) w)) j = Done (Throws e))
        \<and> ((\<exists>j < length (tasks w). pc (tasks w ! j) = AwaitSlot d) \<longrightarrow>
             unhandled (step (Resume i (Fail e)) w) = unhandled w)
        \<and> ((\<forall>j < length (tasks w). pc (tasks w ! j) \<noteq> AwaitSlot d) \<longrightarrow>
             unhandled (step (Resume i (Fail e)) w) = unhandled w @ [e])"
    if h: "updating w = Some d \<and> d < length (deferreds w) \<and> deferreds w ! d = Pending" for d
  proof -
    let ?w1 = "step (Resume i (Fail e)) w"
    have uh: "unheard w d = (\<forall>j < length (tasks w). pc (tasks w ! j) \<noteq> AwaitSlot d)"
      using h by (simp add: unheard_iff)
    have w1: "?w1 = w\<lparr>deferreds := (deferreds w)[d := Rejected e],
                      unhandled := (if unheard w d then unhandled w @ [e] else unhandled w),
                      updating := None,
                      tasks := (tasks w)[i := (tasks w ! i)\<lparr>pc := Done (Returns None)\<rparr>]\<rparr>"
      unfolding step_resume_writing [OF assms] using h by (simp add: on_catch_def settle_def)
    have p1: "pc_of ?w1 i = Done (Returns None)"
      unfolding w1 using assms(1) by (simp add: pc_of_def)
    have p2: "deferred_state (deferreds ?w1) d = Rejected e"
      unfolding w1 using h by (simp add: deferred_state_def)
    have p3: "pc_of (step (Resume j r') ?w1) j = Done (Throws e)"
      if hj: "j < length (tasks w) \<and> pc (tasks w ! j) = AwaitSlot d" for j r'
    proof -
      have ne: "j \<noteq> i" using hj assms(2) by auto
      have "pc_of (step (Resume j r') ?w1) j = Done (Throws e)"
        unfolding w1 using hj ne h by (simp add: pc_of_def deferred_state_def)
      then show ?thesis .
    qed
    have u: "unhandled ?w1 = (if unheard w d then unhandled w @ [e] else unhandled w)"
      unfolding w1 by simp
    have p4: "(\<exists>j < length (tasks w). pc (tasks w ! j) = AwaitSlot d) \<longrightarrow>
             unhandled ?w1 = unhandled w"
      unfolding u uh by auto
    have p5: "(\<forall>j < length (tasks w). pc (tasks w ! j) \<noteq> AwaitSlot d) \<longrightarrow>
             unhandled ?w1 = unhandled w @ [e]"
      unfolding u uh by auto
    show ?thesis using p1 p2 p3 p4 p5 by blast
  qed
  show ?thesis using a b c d ok by blast
qed

theorem write_failure_settles_slot_witness:
  "updating (step (Resume 0 (Fail (IoError ''ENOSPC''))) write_pending) = None
   \<and> pc_of (step (Resume 0 (Fail (IoError ''ENOSPC''))) write_pending) 0 = Done (Returns None)
   \<and> pc_of (step (Resume 1 Ok) (step (Resume 0 (Fail (IoError ''ENOSPC''))) write_pending)) 1
       = Done (Throws (IoError ''ENOSPC''))
   \<and> unhandled (step (Resume 0 (Fail (IoError ''ENOSPC''))) write_pending) = []
   \<and> updating (step (CallUpdate patch_c) (step (Resume 0 (Fail (IoError ''ENOSPC''))) write_pending))
       = Some 1
   \<and> pc_of (step (Resume 0 (Fail (IoError ''ENOSPC''))) lone_writing) 0 = Done (Returns None)
   \<and> unhandled (step (Resume 0 (Fail (IoError ''ENOSPC''))) lone_writing) = [IoError ''ENOSPC'']
   \<and> updating (step (Resume 0 (Fail (IoError ''ENOSPC''))) lone_writing) = None"
  using write_failure_settles_slot [of 0 write_pending "JObj [(''a'', JNum 1)]"
      "Fail (IoError ''ENOSPC'')" "IoError ''ENOSPC''" patch_c]
    write_failure_settles_slot [of 0 lone_writing "JObj [(''a'', JNum 1)]"
      "Fail (IoError ''ENOSPC'')" "IoError ''ENOSPC''" patch_c]
  by (simp add: write_pending_def lone_writing_def unheard_def patch_simps model_simps)

text \<open>
  Claim C3 as stated sends the error to the caller whose write failed and to no other.
  In the schedule \<open>failed_write\<close> the first call's write fails: the first call
  resolves, and the second call, which was waiting, throws the first call's error.
\<close>

theorem failed_write_goes_to_waiter:
  "pc_of (run failed_write (boot Missing)) 0 = Done (Returns None)
   \<and> pc_of (run failed_write (boot Missing)) 1 = Done (Throws (IoError ''ENOSPC''))
   \<and> updating (run failed_write (boot Missing)) = None"
  by (simp add: failed_write_def patch_simps model_simps)

text \<open>
  Claim C2. A call that arrives while another cycle is in flight waits for it, and then
  runs its own read, merge and write; but it never puts a deferred into \<^verbatim>\<open>updating\<close>.
  In the schedule \<open>two_updates\<close> the second call is inside its cycle with
  \<^verbatim>\<open>updating\<close> still \<^verbatim>\<open>null\<close>; its write goes through, and then
  \<^verbatim>\<open>updating.resolve\<close> and \<^verbatim>\<open>updating.reject\<close> both fail on \<^verbatim>\<open>null\<close>, so that
  its promise rejects with a \<^verbatim>\<open>TypeError\<close>.
\<close>

theorem waiter_never_claims_and_rejects:
  "pc_of (run two_updates_start (boot Missing)) 0 = Done (Returns None)
   \<and> pc_of (run two_updates_start (boot Missing)) 1 = InRead AwaitClearing
   \<and> updating (run two_updates_start (boot Missing)) = None
   \<and> disk (run two_updates (boot Missing)) = Holds (JObj [(''a'', JNum 1), (''b'', JNum 2)])
   \<and> pc_of (run two_updates (boot Missing)) 1 = Done (Throws TypeError)"
  by (simp add: two_updates_start_def two_updates_def patch_simps model_simps)

text \<open>
  Claim C6. With three calls made together, the second and the third both wait on the
  first call's deferred and both enter their cycle when it resolves: in the schedule
  \<open>three_updates_start\<close> two cycles are running at once, with \<^verbatim>\<open>updating\<close> empty.
\<close>

theorem two_cycles_at_once:
  "cycles_running (run three_updates_start (boot Missing)) = 2
   \<and> updating (run three_updates_start (boot Missing)) = None"
  by (simp add: three_updates_start_def cycles_running_def patch_simps model_simps)

text \<open>
  Claim C1. With three calls made together, the second and the third both read the
  document the first one wrote, and the write that lands last replaces the other: in
  the schedule \<open>three_updates\<close> the final document has \<open>a\<close> and \<open>c\<close> and has lost
  \<open>b\<close>, although all three calls have finished.
\<close>

theorem third_update_lost:
  "disk (run three_updates (boot Missing)) = Holds (JObj [(''a'', JNum 1), (''c'', JNum 3)])
   \<and> document (disk (run three_updates (boot Missing))) ''b'' = None
   \<and> pc_of (run three_updates (boot Missing)) 0 = Done (Returns None)
   \<and> pc_of (run three_updates (boot Missing)) 1 = Done (Throws TypeError)
   \<and> pc_of (run three_updates (boot Missing)) 2 = Done (Throws TypeError)"
  by (simp add: three_updates_start_def three_updates_def patch_simps model_simps)

end
